theory Spec2Isabelle
  imports Main
begin

section \<open>The ordered map of \<^verbatim>\<open>v4/orderedmap.go\<close>\<close>

text \<open>
  The Go struct \<^verbatim>\<open>OrderedMap[K, V]\<close> has two fields: \<^verbatim>\<open>kv map[K]V\<close>, a reference to
  a hash table, and \<^verbatim>\<open>ll *[]K\<close>, a pointer to a slice holding the keys in iteration order.
  Every method has a value receiver and works through these two references.

  The development has two layers.
  \<^item> The record \<open>OrderedMap\<close> holds what the two references point to: the table as a
    partial function and the slice as a list. Each method is a function from these
    contents to the new contents and the returned value. A run-time panic of the Go code
    (an index or a slice bound out of range) is a value \<open>Inl p\<close> of a sum type.
  \<^item> A heap of tables and slice cells, with handles that are pairs of addresses, carries
    the methods to the level where two handles may or may not share their contents. It is
    used for \<^verbatim>\<open>Copy\<close>.

  Keys are compared with HOL equality, which is reflexive, as the equality of a Go key is
  for every key that is not a floating-point NaN. A handle is one that a constructor of
  the package made: both references are set. A value of type \<open>V\<close> is an opaque HOL value,
  but for the multimap, where it is a slice on a backing array; the zero value of \<open>V\<close>,
  which Go returns for a key that a table does not hold, is the parameter \<open>zero\<close> of
  the functions that read a table by index.
\<close>

subsection \<open>Panics, slices and tables\<close>

datatype panic = IndexOutOfRange | SliceBoundsOutOfRange | MakesliceCapOutOfRange

text \<open>
  \<^verbatim>\<open>slices.Index(s, v)\<close> and \<^verbatim>\<open>slices.IndexFunc(s, f)\<close>: the index of the first
  element that is equal to \<open>v\<close> (that satisfies \<open>f\<close>), or \<open>-1\<close>. The loop
  \<^verbatim>\<open>for i := range s\<close> is the recursion, \<open>i\<close> its counter.
\<close>

fun Index_from :: "nat \<Rightarrow> 'a list \<Rightarrow> 'a \<Rightarrow> int" where
  "Index_from i [] v = - 1"
| "Index_from i (x # s) v = (if v = x then int i else Index_from (Suc i) s v)"

definition slices_Index :: "'a list \<Rightarrow> 'a \<Rightarrow> int" where
  "slices_Index s v = Index_from 0 s v"

fun IndexFunc_from :: "nat \<Rightarrow> 'a list \<Rightarrow> ('a \<Rightarrow> bool) \<Rightarrow> int" where
  "IndexFunc_from i [] f = - 1"
| "IndexFunc_from i (x # s) f = (if f x then int i else IndexFunc_from (Suc i) s f)"

definition slices_IndexFunc :: "'a list \<Rightarrow> ('a \<Rightarrow> bool) \<Rightarrow> int" where
  "slices_IndexFunc s f = IndexFunc_from 0 s f"

text \<open>
  \<^verbatim>\<open>slices.Delete(s, i, j)\<close> removes \<open>s[i:j]\<close>; it panics when \<open>s[i:j]\<close> is not a
  valid slice of \<open>s\<close>.
\<close>

definition slices_Delete :: "'a list \<Rightarrow> int \<Rightarrow> int \<Rightarrow> panic + 'a list" where
  "slices_Delete s i j =
     (if 0 \<le> i \<and> i \<le> j \<and> j \<le> int (length s)
      then Inr (take (nat i) s @ drop (nat j) s)
      else Inl SliceBoundsOutOfRange)"

text \<open>The assignment \<^verbatim>\<open>s[i] = v\<close>, which panics when \<open>i\<close> is out of range.\<close>

definition assign_index :: "'a list \<Rightarrow> int \<Rightarrow> 'a \<Rightarrow> panic + 'a list" where
  "assign_index s i v =
     (if 0 \<le> i \<and> i < int (length s) then Inr (s[nat i := v]) else Inl IndexOutOfRange)"

text \<open>\<^verbatim>\<open>slices.Backward(s)\<close> yields the elements from the last index down to 0.\<close>

definition slices_Backward :: "'a list \<Rightarrow> 'a list" where
  "slices_Backward s = rev s"

text \<open>
  The expression \<^verbatim>\<open>t[key]\<close> on a table: the stored value, or the zero value of the
  value type when the key is absent.
\<close>

definition index_map :: "'v \<Rightarrow> ('k \<rightharpoonup> 'v) \<Rightarrow> 'k \<Rightarrow> 'v" where
  "index_map zero t key = (case t key of Some value \<Rightarrow> value | None \<Rightarrow> zero)"

subsection \<open>The map and its methods\<close>

record ('k, 'v) OrderedMap =
  kv :: "'k \<rightharpoonup> 'v"
  ll :: "'k list"

definition MakeOrderedMap :: "('k, 'v) OrderedMap" where
  "MakeOrderedMap = \<lparr>kv = Map.empty, ll = []\<rparr>"

definition NewOrderedMap :: "('k, 'v) OrderedMap" where
  "NewOrderedMap = \<lparr>kv = Map.empty, ll = []\<rparr>"

text \<open>
  \<^verbatim>\<open>make([]K, 0, capacity)\<close> panics on a negative capacity; otherwise the capacity
  is not observable. It panics as well on a capacity beyond what the machine can
  allocate, a bound that the length of a slice in memory, which is what \<^verbatim>\<open>Copy\<close>
  passes, does not reach and that is left out here.
\<close>

definition NewOrderedMapWithCapacity :: "int \<Rightarrow> panic + ('k, 'v) OrderedMap" where
  "NewOrderedMapWithCapacity capacity =
     (if capacity < 0 then Inl MakesliceCapOutOfRange
      else Inr \<lparr>kv = Map.empty, ll = []\<rparr>)"

definition Get :: "'v \<Rightarrow> ('k, 'v) OrderedMap \<Rightarrow> 'k \<Rightarrow> 'v \<times> bool" where
  "Get zero m key = (index_map zero (kv m) key, kv m key \<noteq> None)"

text \<open>The methods that write return the Go result first and the new contents second.\<close>

definition Set :: "('k, 'v) OrderedMap \<Rightarrow> 'k \<Rightarrow> 'v \<Rightarrow> bool \<times> ('k, 'v) OrderedMap" where
  "Set m key value =
     (let alreadyExist = (kv m key \<noteq> None);
          m1 = m\<lparr>kv := (kv m)(key \<mapsto> value)\<rparr>
      in if alreadyExist then (False, m1)
         else (True, m1\<lparr>ll := ll m1 @ [key]\<rparr>))"

definition ReplaceKey ::
  "('k, 'v) OrderedMap \<Rightarrow> 'k \<Rightarrow> 'k \<Rightarrow> panic + bool \<times> ('k, 'v) OrderedMap" where
  "ReplaceKey m originalKey newKey =
     (case kv m originalKey of
        Some element \<Rightarrow>
          if kv m newKey = None then
            (let m1 = m\<lparr>kv := (kv m)(originalKey := None)\<rparr>;
                 m2 = m1\<lparr>kv := (kv m1)(newKey \<mapsto> element)\<rparr>;
                 lli = slices_IndexFunc (ll m2) (\<lambda>key. key = originalKey)
             in case assign_index (ll m2) lli newKey of
                  Inl p \<Rightarrow> Inl p
                | Inr s \<Rightarrow> Inr (True, m2\<lparr>ll := s\<rparr>))
          else Inr (False, m)
      | None \<Rightarrow> Inr (False, m))"

definition GetOrDefault :: "('k, 'v) OrderedMap \<Rightarrow> 'k \<Rightarrow> 'v \<Rightarrow> 'v" where
  "GetOrDefault m key defaultValue =
     (case kv m key of Some value \<Rightarrow> value | None \<Rightarrow> defaultValue)"

definition Len :: "('k, 'v) OrderedMap \<Rightarrow> int" where
  "Len m = int (length (ll m))"

definition Has :: "('k, 'v) OrderedMap \<Rightarrow> 'k \<Rightarrow> bool" where
  "Has m key = (kv m key \<noteq> None)"

definition Delete :: "('k, 'v) OrderedMap \<Rightarrow> 'k \<Rightarrow> panic + bool \<times> ('k, 'v) OrderedMap" where
  "Delete m key =
     (let ok = (kv m key \<noteq> None)
      in if ok then
           (let lli = slices_Index (ll m) key
            in case slices_Delete (ll m) lli (lli + 1) of
                 Inl p \<Rightarrow> Inl p
               | Inr s \<Rightarrow> Inr (ok, m\<lparr>ll := s, kv := (kv m)(key := None)\<rparr>))
         else Inr (ok, m))"

subsection \<open>Iterators\<close>

text \<open>
  An iterator of Go (\<^verbatim>\<open>iter.Seq\<close>, \<^verbatim>\<open>iter.Seq2\<close>) is a function that takes the
  consumer \<^verbatim>\<open>yield\<close> and calls it on one element after the other until it answers
  \<^verbatim>\<open>false\<close>. The consumer has effects of its own: it is a function from its state
  \<open>'s\<close> to its answer and its new state, and the iterator maps the consumer's state
  before the traversal to its state after it. The consumer's state is apart from the
  map: a consumer that writes to the map it traverses is not described.

  \<open>range_loop s body\<close> is the statement
  \<^verbatim>\<open>for _, x := range s { if !body(x) { return } }\<close>.
\<close>

fun range_loop :: "'a list \<Rightarrow> ('a \<Rightarrow> 's \<Rightarrow> bool \<times> 's) \<Rightarrow> 's \<Rightarrow> 's" where
  "range_loop [] body st = st"
| "range_loop (x # s) body st =
     (case body x st of (continue, st') \<Rightarrow> if \<not> continue then st' else range_loop s body st')"

definition AllFromFront ::
  "'v \<Rightarrow> ('k, 'v) OrderedMap \<Rightarrow> ('k \<Rightarrow> 'v \<Rightarrow> 's \<Rightarrow> bool \<times> 's) \<Rightarrow> 's \<Rightarrow> 's" where
  "AllFromFront zero m yield =
     range_loop (ll m) (\<lambda>key. yield key (index_map zero (kv m) key))"

definition All_seq ::
  "'v \<Rightarrow> ('k, 'v) OrderedMap \<Rightarrow> ('k \<Rightarrow> 'v \<Rightarrow> 's \<Rightarrow> bool \<times> 's) \<Rightarrow> 's \<Rightarrow> 's" where
  "All_seq zero m = AllFromFront zero m"

definition AllFromBack ::
  "'v \<Rightarrow> ('k, 'v) OrderedMap \<Rightarrow> ('k \<Rightarrow> 'v \<Rightarrow> 's \<Rightarrow> bool \<times> 's) \<Rightarrow> 's \<Rightarrow> 's" where
  "AllFromBack zero m yield =
     range_loop (slices_Backward (ll m)) (\<lambda>key. yield key (index_map zero (kv m) key))"

definition Keys :: "('k, 'v) OrderedMap \<Rightarrow> ('k \<Rightarrow> 's \<Rightarrow> bool \<times> 's) \<Rightarrow> 's \<Rightarrow> 's" where
  "Keys m yield = range_loop (ll m) (\<lambda>key. yield key)"

definition Values ::
  "'v \<Rightarrow> ('k, 'v) OrderedMap \<Rightarrow> ('v \<Rightarrow> 's \<Rightarrow> bool \<times> 's) \<Rightarrow> 's \<Rightarrow> 's" where
  "Values zero m yield = range_loop (ll m) (\<lambda>key. yield (index_map zero (kv m) key))"

text \<open>
  What a traversal yields to a consumer that never stops: \<^verbatim>\<open>slices.Collect\<close> for an
  iterator of single elements, and the same for an iterator of pairs.
\<close>

definition slices_Collect :: "(('a \<Rightarrow> 'a list \<Rightarrow> bool \<times> 'a list) \<Rightarrow> 'a list \<Rightarrow> 'a list) \<Rightarrow> 'a list" where
  "slices_Collect seq = seq (\<lambda>x acc. (True, acc @ [x])) []"

definition Collect2 ::
  "(('k \<Rightarrow> 'v \<Rightarrow> ('k \<times> 'v) list \<Rightarrow> bool \<times> ('k \<times> 'v) list) \<Rightarrow> ('k \<times> 'v) list \<Rightarrow> ('k \<times> 'v) list)
   \<Rightarrow> ('k \<times> 'v) list" where
  "Collect2 seq = seq (\<lambda>key value acc. (True, acc @ [(key, value)])) []"

subsection \<open>Slices as values, and the multimap\<close>

text \<open>
  A value of a multimap is a slice: a window of \<open>s_len\<close> elements, with room for
  \<open>s_cap\<close>, that starts at \<open>s_off\<close> in a backing array. Two slices may have the same
  backing array, so the arrays are kept in a store of their own, as the tables and cells
  of the heap below are, and the elements of a slice are read from the store. The nil
  slice, the zero value, has no elements and no room.
\<close>

record slice =
  s_array :: nat
  s_off :: nat
  s_len :: nat
  s_cap :: nat

record 'v array_store =
  arrays :: "nat \<Rightarrow> 'v list"
  next_array :: nat

definition nil_slice :: slice where
  "nil_slice = \<lparr>s_array = 0, s_off = 0, s_len = 0, s_cap = 0\<rparr>"

definition elems :: "'v array_store \<Rightarrow> slice \<Rightarrow> 'v list" where
  "elems A s = take (s_len s) (drop (s_off s) (arrays A (s_array s)))"

text \<open>What holds of every slice value: its window and its room lie within its array.\<close>

definition valid_slice :: "'v array_store \<Rightarrow> slice \<Rightarrow> bool" where
  "valid_slice A s = (s_len s \<le> s_cap s \<and> s_off s + s_cap s \<le> length (arrays A (s_array s)))"

text \<open>
  \<^verbatim>\<open>append(s, v)\<close>. With room left, the element is written into the backing array
  behind the window, where every slice on the same array sees it, and the result is the
  longer window on the same array. Without room, a new array gets the elements and the
  new one. How much room the new array has is the choice of the Go runtime, which is not
  part of the package: it is the parameter \<open>growcap\<close>, from the old capacity to the
  new one, and at least what the elements need. The unused room holds zero values.
\<close>

definition go_append ::
  "'v \<Rightarrow> (nat \<Rightarrow> nat) \<Rightarrow> 'v array_store \<Rightarrow> slice \<Rightarrow> 'v \<Rightarrow> slice \<times> 'v array_store" where
  "go_append zero growcap A s v =
     (if s_len s < s_cap s then
        (s\<lparr>s_len := s_len s + 1\<rparr>,
         A\<lparr>arrays := (arrays A)(s_array s := (arrays A (s_array s))[s_off s + s_len s := v])\<rparr>)
      else
        (let newcap = max (s_len s + 1) (growcap (s_cap s))
         in (\<lparr>s_array = next_array A, s_off = 0, s_len = s_len s + 1, s_cap = newcap\<rparr>,
             A\<lparr>arrays := (arrays A)(next_array A :=
                   elems A s @ v # replicate (newcap - (s_len s + 1)) zero),
               next_array := Suc (next_array A)\<rparr>)))"

text \<open>The literal \<^verbatim>\<open>[]V{value}\<close>: a new array of one element.\<close>

definition slice_literal1 :: "'v array_store \<Rightarrow> 'v \<Rightarrow> slice \<times> 'v array_store" where
  "slice_literal1 A value =
     (\<lparr>s_array = next_array A, s_off = 0, s_len = 1, s_cap = 1\<rparr>,
      A\<lparr>arrays := (arrays A)(next_array A := [value]), next_array := Suc (next_array A)\<rparr>)"

text \<open>
  \<^verbatim>\<open>AppendMultiMap\<close> returns the map it was given; here it returns the contents of
  that map and the store of arrays after the call.
\<close>

definition AppendMultiMap ::
  "'v \<Rightarrow> (nat \<Rightarrow> nat) \<Rightarrow> 'v array_store \<Rightarrow> ('k, slice) OrderedMap \<Rightarrow> 'k \<Rightarrow> 'v
   \<Rightarrow> ('k, slice) OrderedMap \<times> 'v array_store" where
  "AppendMultiMap zero growcap A m key value =
     (case Get nil_slice m key of
        (a, ok) \<Rightarrow>
          if ok then
            (case go_append zero growcap A a value of (a', A') \<Rightarrow> (snd (Set m key a'), A'))
          else
            (case slice_literal1 A value of (a', A') \<Rightarrow> (snd (Set m key a'), A')))"

definition no_arrays :: "'v array_store" where
  "no_arrays = \<lparr>arrays = (\<lambda>_. []), next_array = 0\<rparr>"

subsection \<open>Handles and the heap\<close>

text \<open>
  A handle is the struct itself: the address of its table and the address of the cell
  that holds its slice. The heap maps the addresses to what they hold and counts the
  addresses it has given out; \<^verbatim>\<open>map[K]V{}\<close> and \<^verbatim>\<open>new([]K)\<close> (or \<^verbatim>\<open>&ll\<close>) take
  the next free address. Copying the struct copies the two addresses, so both copies
  denote the same contents; only \<^verbatim>\<open>Copy\<close> makes new ones.
\<close>

record handle =
  kv_ref :: nat
  ll_ref :: nat

record ('k, 'v) heap =
  tables :: "nat \<Rightarrow> ('k \<rightharpoonup> 'v)"
  cells :: "nat \<Rightarrow> 'k list"
  next_table :: nat
  next_cell :: nat

definition contents :: "('k, 'v) heap \<Rightarrow> handle \<Rightarrow> ('k, 'v) OrderedMap" where
  "contents h m = \<lparr>kv = tables h (kv_ref m), ll = cells h (ll_ref m)\<rparr>"

definition put :: "('k, 'v) heap \<Rightarrow> handle \<Rightarrow> ('k, 'v) OrderedMap \<Rightarrow> ('k, 'v) heap" where
  "put h m c = h\<lparr>tables := (tables h)(kv_ref m := kv c), cells := (cells h)(ll_ref m := ll c)\<rparr>"

definition allocated :: "('k, 'v) heap \<Rightarrow> handle \<Rightarrow> bool" where
  "allocated h m = (kv_ref m < next_table h \<and> ll_ref m < next_cell h)"

definition alloc :: "('k, 'v) heap \<Rightarrow> ('k, 'v) OrderedMap \<Rightarrow> handle \<times> ('k, 'v) heap" where
  "alloc h c =
     (\<lparr>kv_ref = next_table h, ll_ref = next_cell h\<rparr>,
      h\<lparr>tables := (tables h)(next_table h := kv c),
        cells := (cells h)(next_cell h := ll c),
        next_table := Suc (next_table h),
        next_cell := Suc (next_cell h)\<rparr>)"

definition heap_NewOrderedMapWithCapacity ::
  "('k, 'v) heap \<Rightarrow> int \<Rightarrow> panic + handle \<times> ('k, 'v) heap" where
  "heap_NewOrderedMapWithCapacity h capacity =
     (case NewOrderedMapWithCapacity capacity of
        Inl p \<Rightarrow> Inl p
      | Inr c \<Rightarrow> Inr (alloc h c))"

definition heap_Set :: "('k, 'v) heap \<Rightarrow> handle \<Rightarrow> 'k \<Rightarrow> 'v \<Rightarrow> bool \<times> ('k, 'v) heap" where
  "heap_Set h m key value = (case Set (contents h m) key value of (b, c) \<Rightarrow> (b, put h m c))"

text \<open>
  \<^verbatim>\<open>Copy\<close>: a new map from \<^verbatim>\<open>NewOrderedMapWithCapacity(m.Len())\<close>, then the loop
  \<^verbatim>\<open>for _, key := range *m.ll { m2.Set(key, m.kv[key]) }\<close>. The slice of the source is
  read once, when the loop starts; its table is read in every round, in the heap as the
  rounds before have left it. The loop has no early exit: it is a fold.
\<close>

definition Copy :: "'v \<Rightarrow> ('k, 'v) heap \<Rightarrow> handle \<Rightarrow> panic + handle \<times> ('k, 'v) heap" where
  "Copy zero h m =
     (case heap_NewOrderedMapWithCapacity h (Len (contents h m)) of
        Inl p \<Rightarrow> Inl p
      | Inr (m2, h1) \<Rightarrow>
          Inr (m2, foldl (\<lambda>g key. snd (heap_Set g m2 key (index_map zero (tables g (kv_ref m)) key)))
                     h1 (cells h1 (ll_ref m))))"

subsection \<open>Sequences of operations\<close>

text \<open>
  The maps a program can hold are those that the methods that write make from an empty
  map. A sequence of such calls is a list of operations; running it stops at the first
  panic.
\<close>

datatype ('k, 'v) op = OpSet 'k 'v | OpDelete 'k | OpReplaceKey 'k 'k

fun apply_op :: "('k, 'v) op \<Rightarrow> ('k, 'v) OrderedMap \<Rightarrow> panic + ('k, 'v) OrderedMap" where
  "apply_op (OpSet key value) m = Inr (snd (Set m key value))"
| "apply_op (OpDelete key) m = map_sum id snd (Delete m key)"
| "apply_op (OpReplaceKey originalKey newKey) m = map_sum id snd (ReplaceKey m originalKey newKey)"

fun run :: "('k, 'v) op list \<Rightarrow> ('k, 'v) OrderedMap \<Rightarrow> panic + ('k, 'v) OrderedMap" where
  "run [] m = Inr m"
| "run (c # cs) m = (case apply_op c m of Inl p \<Rightarrow> Inl p | Inr m' \<Rightarrow> run cs m')"

text \<open>The same through a handle: the operation works on what the handle points to.\<close>

definition heap_apply :: "('k, 'v) op \<Rightarrow> handle \<Rightarrow> ('k, 'v) heap \<Rightarrow> panic + ('k, 'v) heap" where
  "heap_apply c m h =
     (case apply_op c (contents h m) of Inl p \<Rightarrow> Inl p | Inr c' \<Rightarrow> Inr (put h m c'))"

fun heap_run :: "('k, 'v) op list \<Rightarrow> handle \<Rightarrow> ('k, 'v) heap \<Rightarrow> panic + ('k, 'v) heap" where
  "heap_run [] m h = Inr h"
| "heap_run (c # cs) m h =
     (case heap_apply c m h of Inl p \<Rightarrow> Inl p | Inr h' \<Rightarrow> heap_run cs m h')"

text \<open>
  The invariant of the data model: the slice lists every key of the table once, and
  nothing else.
\<close>

definition consistent :: "('k, 'v) OrderedMap \<Rightarrow> bool" where
  "consistent m = (distinct (ll m) \<and> set (ll m) = dom (kv m))"

subsection \<open>Observing a consumer\<close>

text \<open>
  \<open>counting yield\<close> is the consumer \<open>yield\<close> with a counter of its calls beside its
  state. \<open>answers yield xs st\<close> are the answers \<open>yield\<close> gives when it is called on
  every element of \<open>xs\<close> in turn from the state \<open>st\<close>, whatever it answers, and
  \<open>feed yield xs st\<close> is its state after these calls. The consumer signals stop after
  the \<open>i\<close>-th element of \<open>xs\<close> when its first \<open>i\<close> answers are \<open>i - 1\<close> times
  \<^verbatim>\<open>true\<close> and then \<^verbatim>\<open>false\<close>.
\<close>

definition counting :: "('a \<Rightarrow> 's \<Rightarrow> bool \<times> 's) \<Rightarrow> 'a \<Rightarrow> nat \<times> 's \<Rightarrow> bool \<times> (nat \<times> 's)" where
  "counting yield x = (\<lambda>(n, st). case yield x st of (continue, st') \<Rightarrow> (continue, (Suc n, st')))"

definition counting2 ::
  "('k \<Rightarrow> 'v \<Rightarrow> 's \<Rightarrow> bool \<times> 's) \<Rightarrow> 'k \<Rightarrow> 'v \<Rightarrow> nat \<times> 's \<Rightarrow> bool \<times> (nat \<times> 's)" where
  "counting2 yield key value = counting (\<lambda>(k, v). yield k v) (key, value)"

fun answers :: "('a \<Rightarrow> 's \<Rightarrow> bool \<times> 's) \<Rightarrow> 'a list \<Rightarrow> 's \<Rightarrow> bool list" where
  "answers yield [] st = []"
| "answers yield (x # xs) st = fst (yield x st) # answers yield xs (snd (yield x st))"

fun feed :: "('a \<Rightarrow> 's \<Rightarrow> bool \<times> 's) \<Rightarrow> 'a list \<Rightarrow> 's \<Rightarrow> 's" where
  "feed yield [] st = st"
| "feed yield (x # xs) st = feed yield xs (snd (yield x st))"

definition stops_after :: "('a \<Rightarrow> 's \<Rightarrow> bool \<times> 's) \<Rightarrow> 'a list \<Rightarrow> 's \<Rightarrow> nat \<Rightarrow> bool" where
  "stops_after yield xs st i =
     (0 < i \<and> i \<le> length xs \<and> take i (answers yield xs st) = replicate (i - 1) True @ [False])"

subsection \<open>Example data\<close>

text \<open>
  The map of \<^verbatim>\<open>Set("a", 1); Set("b", 2); Set("c", 3)\<close>, a heap that holds it at the
  addresses 0, and a consumer that remembers what it has been given and answers
  \<^verbatim>\<open>false\<close> at its second call.
\<close>

definition abc :: "(string, nat) OrderedMap" where
  "abc = \<lparr>kv = [''a'' \<mapsto> 1, ''b'' \<mapsto> 2, ''c'' \<mapsto> 3], ll = [''a'', ''b'', ''c'']\<rparr>"

definition heap0 :: "(string, nat) heap" where
  "heap0 = \<lparr>tables = (\<lambda>_. Map.empty)(0 := kv abc), cells = (\<lambda>_. [])(0 := ll abc),
            next_table = 1, next_cell = 1\<rparr>"

definition handle0 :: handle where
  "handle0 = \<lparr>kv_ref = 0, ll_ref = 0\<rparr>"

definition stop_at_second :: "'a \<Rightarrow> 'a list \<Rightarrow> bool \<times> 'a list" where
  "stop_at_second x seen = (length seen < 1, seen @ [x])"

text \<open>
  A multimap that holds the sequence 1 under \<^verbatim>\<open>"a"\<close>, with its store of arrays, and a
  runtime that doubles the capacity when a slice has to grow.
\<close>

definition one_a :: "(string, slice) OrderedMap" where
  "one_a = \<lparr>kv = [''a'' \<mapsto> \<lparr>s_array = 0, s_off = 0, s_len = 1, s_cap = 1\<rparr>], ll = [''a'']\<rparr>"

definition one_a_arrays :: "int array_store" where
  "one_a_arrays = \<lparr>arrays = (\<lambda>_. [])(0 := [1]), next_array = 1\<rparr>"

definition doubling :: "nat \<Rightarrow> nat" where
  "doubling c = 2 * c"

section \<open>Properties\<close>

subsection \<open>The scans and the slice operations\<close>

lemma Index_from_notin: "v \<notin> set s \<Longrightarrow> Index_from i s v = - 1"
  by (induction s arbitrary: i) auto

lemma Index_from_in:
  "v \<in> set s \<Longrightarrow> Index_from i s v = int i + int (length (takeWhile (\<lambda>x. x \<noteq> v) s))"
  by (induction s arbitrary: i) auto

lemma IndexFunc_from_eq: "IndexFunc_from i s (\<lambda>key. key = v) = Index_from i s v"
  by (induction s arbitrary: i) auto

lemma takeWhile_lt: "v \<in> set s \<Longrightarrow> length (takeWhile (\<lambda>x. x \<noteq> v) s) < length s"
  by (induction s) auto

lemma take_drop_first: "v \<in> set s \<Longrightarrow>
  take (length (takeWhile (\<lambda>x. x \<noteq> v) s)) s @ drop (Suc (length (takeWhile (\<lambda>x. x \<noteq> v) s))) s = remove1 v s"
  by (induction s) auto

lemma map_rename_notin: "v \<notin> set s \<Longrightarrow> map (\<lambda>x. if x = v then w else x) s = s"
  by (induction s) auto

lemma upd_first: "v \<in> set s \<Longrightarrow> distinct s \<Longrightarrow>
  s[length (takeWhile (\<lambda>x. x \<noteq> v) s) := w] = map (\<lambda>x. if x = v then w else x) s"
  by (induction s) (auto simp: map_rename_notin)

lemma slices_Index_in: "v \<in> set s \<Longrightarrow> slices_Index s v = int (length (takeWhile (\<lambda>x. x \<noteq> v) s))"
  by (simp add: slices_Index_def Index_from_in)

lemma slices_Index_notin: "v \<notin> set s \<Longrightarrow> slices_Index s v = - 1"
  by (simp add: slices_Index_def Index_from_notin)

lemma slices_IndexFunc_eq: "slices_IndexFunc s (\<lambda>key. key = v) = slices_Index s v"
  by (simp add: slices_IndexFunc_def slices_Index_def IndexFunc_from_eq)

lemma slices_Delete_found: "v \<in> set s \<Longrightarrow>
  slices_Delete s (slices_Index s v) (slices_Index s v + 1) = Inr (remove1 v s)"
  using takeWhile_lt[of v s] take_drop_first[of v s]
  by (simp add: slices_Index_in slices_Delete_def nat_add_distrib)

lemma assign_index_found: "v \<in> set s \<Longrightarrow>
  assign_index s (slices_Index s v) w = Inr (s[length (takeWhile (\<lambda>x. x \<noteq> v) s) := w])"
  using takeWhile_lt[of v s] by (simp add: slices_Index_in assign_index_def)

subsection \<open>The methods that write, case by case\<close>

lemma Set_new: "kv m key = None \<Longrightarrow> Set m key value = (True, \<lparr>kv = (kv m)(key \<mapsto> value), ll = ll m @ [key]\<rparr>)"
  by (simp add: Set_def)

lemma Set_old: "kv m key \<noteq> None \<Longrightarrow> Set m key value = (False, \<lparr>kv = (kv m)(key \<mapsto> value), ll = ll m\<rparr>)"
  by (simp add: Set_def)

lemma Delete_present:
  "kv m key \<noteq> None \<Longrightarrow> key \<in> set (ll m) \<Longrightarrow>
   Delete m key = Inr (True, \<lparr>kv = (kv m)(key := None), ll = remove1 key (ll m)\<rparr>)"
  by (simp add: Delete_def slices_Delete_found)

lemma Delete_absent: "kv m key = None \<Longrightarrow> Delete m key = Inr (False, m)"
  by (simp add: Delete_def)

lemma ReplaceKey_success:
  "kv m a = Some e \<Longrightarrow> kv m b = None \<Longrightarrow> a \<in> set (ll m) \<Longrightarrow>
   ReplaceKey m a b = Inr (True, \<lparr>kv = (kv m)(a := None, b \<mapsto> e),
      ll = (ll m)[length (takeWhile (\<lambda>x. x \<noteq> a) (ll m)) := b]\<rparr>)"
  by (simp add: ReplaceKey_def slices_IndexFunc_eq assign_index_found)

lemma ReplaceKey_no_change:
  "kv m a = None \<or> kv m b \<noteq> None \<Longrightarrow> ReplaceKey m a b = Inr (False, m)"
  by (auto simp: ReplaceKey_def split: option.splits)

subsection \<open>The invariant\<close>

lemma consistent_Set: "consistent m \<Longrightarrow> consistent (snd (Set m key value))"
  by (cases "kv m key") (auto simp: consistent_def Set_new Set_old)

lemma consistent_Delete:
  assumes "consistent m"
  shows "\<exists>r. Delete m key = Inr r \<and> consistent (snd r)"
proof (cases "kv m key")
  case None
  with assms show ?thesis by (simp add: Delete_absent)
next
  case (Some e)
  with assms have "key \<in> set (ll m)" by (auto simp: consistent_def)
  with Some assms show ?thesis
    by (auto simp: Delete_present consistent_def)
qed

lemma consistent_ReplaceKey:
  assumes "consistent m"
  shows "\<exists>r. ReplaceKey m a b' = Inr r \<and> consistent (snd r)"
proof (cases "kv m a = None \<or> kv m b' \<noteq> None")
  case True
  with assms show ?thesis by (simp add: ReplaceKey_no_change)
next
  case False
  then obtain e where e: "kv m a = Some e" "kv m b' = None" by auto
  with assms have a: "a \<in> set (ll m)" and d: "distinct (ll m)" and b: "b' \<notin> set (ll m)"
    by (auto simp: consistent_def)
  have "distinct (map (\<lambda>x. if x = a then b' else x) (ll m))"
    using b d by (auto simp: distinct_map inj_on_def)
  moreover have "set (map (\<lambda>x. if x = a then b' else x) (ll m)) = insert b' (set (ll m) - {a})"
    using a by auto
  ultimately show ?thesis
    using e a d assms by (auto simp: ReplaceKey_success upd_first consistent_def)
qed

lemma run_consistent:
  "consistent m \<Longrightarrow> \<exists>m'. run cs m = Inr m' \<and> consistent m'"
proof (induction cs arbitrary: m)
  case Nil
  then show ?case by simp
next
  case (Cons c cs)
  have "\<exists>m1. apply_op c m = Inr m1 \<and> consistent m1"
  proof (cases c)
    case (OpSet k v)
    with Cons.prems show ?thesis by (simp add: consistent_Set)
  next
    case (OpDelete k)
    with consistent_Delete[OF Cons.prems, of k] show ?thesis by auto
  next
    case (OpReplaceKey a b)
    with consistent_ReplaceKey[OF Cons.prems, of a b] show ?thesis by auto
  qed
  then obtain m1 where "apply_op c m = Inr m1" "consistent m1" by blast
  with Cons.IH[of m1] show ?case by simp
qed

lemma foldl_Set:
  "distinct (map fst kvs) \<Longrightarrow> fst ` set kvs \<inter> dom (kv c) = {} \<Longrightarrow>
   foldl (\<lambda>c (k, v). snd (Set c k v)) c kvs = \<lparr>kv = kv c ++ map_of kvs, ll = ll c @ map fst kvs\<rparr>"
proof (induction kvs arbitrary: c)
  case Nil
  then show ?case by simp
next
  case (Cons a kvs)
  obtain k v where a: "a = (k, v)" by (cases a)
  from Cons.prems a have new: "kv c k = None" by auto
  let ?c1 = "\<lparr>kv = (kv c)(k \<mapsto> v), ll = ll c @ [k]\<rparr>"
  let ?F = "\<lambda>c (k, v). snd (Set c k v)"
  from Cons.prems a have "distinct (map fst kvs)" "fst ` set kvs \<inter> dom (kv ?c1) = {}"
    by auto
  from Cons.IH[OF this] have ih:
    "foldl ?F ?c1 kvs = \<lparr>kv = kv ?c1 ++ map_of kvs, ll = ll ?c1 @ map fst kvs\<rparr>" .
  from Cons.prems a have "k \<notin> dom (map_of kvs)"
    by (auto simp: dom_map_of_conv_image_fst)
  then have e: "(kv c)(k \<mapsto> v) ++ map_of kvs = kv c ++ map_of (a # kvs)"
    by (simp add: a map_add_upd_left)
  have "foldl ?F c (a # kvs) = foldl ?F ?c1 kvs"
    using new by (simp add: a Set_new)
  also note ih
  also have "\<lparr>kv = kv ?c1 ++ map_of kvs, ll = ll ?c1 @ map fst kvs\<rparr>
      = \<lparr>kv = kv c ++ map_of (a # kvs), ll = ll c @ map fst (a # kvs)\<rparr>"
    using e by (simp add: a)
  finally show ?case .
qed

lemma run_Set: "run (map (\<lambda>(k, v). OpSet k v) kvs) c = Inr (foldl (\<lambda>c (k, v). snd (Set c k v)) c kvs)"
  by (induction kvs arbitrary: c) (auto split: prod.splits)

lemma Copy_pairs:
  assumes "consistent c"
  shows "foldl (\<lambda>c (k, v). snd (Set c k v)) \<lparr>kv = Map.empty, ll = []\<rparr>
           (map (\<lambda>key. (key, index_map z (kv c) key)) (ll c)) = c"
proof -
  let ?kvs = "map (\<lambda>key. (key, index_map z (kv c) key)) (ll c)"
  from assms have d: "distinct (ll c)" and s: "set (ll c) = dom (kv c)"
    by (simp_all add: consistent_def)
  have f: "map fst ?kvs = ll c" by (simp add: o_def)
  have "map_of ?kvs x = kv c x" for x
  proof (cases "kv c x")
    case None
    with s have "x \<notin> set (ll c)" by auto
    then have "x \<notin> fst ` set ?kvs" by (simp add: image_image)
    with None show ?thesis by (simp add: map_of_eq_None_iff)
  next
    case (Some e)
    with s have "x \<in> set (ll c)" by auto
    with Some have "(x, e) \<in> set ?kvs" by (auto simp: index_map_def)
    moreover from d f have "distinct (map fst ?kvs)" by simp
    ultimately have "map_of ?kvs x = Some e" by (simp only: map_of_is_SomeI)
    with Some show ?thesis by simp
  qed
  then have k: "map_of ?kvs = kv c" by (rule ext)
  have "foldl (\<lambda>c (k, v). snd (Set c k v)) \<lparr>kv = Map.empty, ll = []\<rparr> ?kvs
      = \<lparr>kv = map_of ?kvs, ll = map fst ?kvs\<rparr>"
  proof -
    have 1: "distinct (map fst ?kvs)" using d by (simp only: f)
    have 2: "fst ` set ?kvs \<inter> dom (kv (\<lparr>kv = Map.empty, ll = []\<rparr> :: ('a, 'b) OrderedMap)) = {}" by simp
    from foldl_Set[OF 1 2] show ?thesis by (simp del: map_map)
  qed
  also have "\<dots> = c" by (simp add: k o_def)
  finally show ?thesis .
qed

lemma consistent_reachable:
  "consistent m \<longleftrightarrow> (\<exists>cs. run cs MakeOrderedMap = Inr m)"
proof
  assume c: "consistent m"
  let ?kvs = "map (\<lambda>key. (key, index_map undefined (kv m) key)) (ll m)"
  have "run (map (\<lambda>(k, v). OpSet k v) ?kvs) MakeOrderedMap = Inr m"
    using Copy_pairs[OF c, of undefined] by (simp only: run_Set MakeOrderedMap_def)
  then show "\<exists>cs. run cs MakeOrderedMap = Inr m" by blast
next
  assume "\<exists>cs. run cs MakeOrderedMap = Inr m"
  then obtain cs where r: "run cs MakeOrderedMap = Inr m" by blast
  have "consistent (MakeOrderedMap :: ('a, 'b) OrderedMap)"
    by (simp add: consistent_def MakeOrderedMap_def)
  from run_consistent[OF this, of cs] r show "consistent m" by simp
qed

subsection \<open>Traversals\<close>

lemma range_loop_collect: "range_loop s (\<lambda>x acc. (True, acc @ [f x])) acc = acc @ map f s"
  by (induction s arbitrary: acc) auto

lemma range_loop_map: "range_loop (map f s) body st = range_loop s (\<lambda>x. body (f x)) st"
  by (induction s arbitrary: st) (auto split: prod.splits)

lemma Collect_Keys: "slices_Collect (Keys m) = ll m"
  using range_loop_collect[of "ll m" "\<lambda>x. x" "[]"] by (simp add: slices_Collect_def Keys_def)

lemma Collect_Values: "slices_Collect (Values z m) = map (index_map z (kv m)) (ll m)"
  using range_loop_collect[of "ll m" "index_map z (kv m)" "[]"] by (simp add: slices_Collect_def Values_def)

lemma Collect2_AllFromFront: "Collect2 (AllFromFront z m) = map (\<lambda>key. (key, index_map z (kv m) key)) (ll m)"
  using range_loop_collect[of "ll m" "\<lambda>key. (key, index_map z (kv m) key)" "[]"]
  by (simp add: Collect2_def AllFromFront_def)

lemma Collect2_AllFromBack: "Collect2 (AllFromBack z m) = map (\<lambda>key. (key, index_map z (kv m) key)) (rev (ll m))"
  using range_loop_collect[of "rev (ll m)" "\<lambda>key. (key, index_map z (kv m) key)" "[]"]
  by (simp add: Collect2_def AllFromBack_def slices_Backward_def)

lemma Collect2_back_rev: "Collect2 (AllFromBack z m) = rev (Collect2 (AllFromFront z m))"
  by (simp add: Collect2_AllFromBack Collect2_AllFromFront rev_map)

lemma map_of_pairs: "distinct (map fst kvs) \<Longrightarrow>
  map (\<lambda>key. (key, index_map z (map_of kvs) key)) (map fst kvs) = kvs"
proof -
  assume d: "distinct (map fst kvs)"
  have "\<And>p. p \<in> set kvs \<Longrightarrow> (fst p, index_map z (map_of kvs) (fst p)) = p"
  proof -
    fix p assume "p \<in> set kvs"
    then have "(fst p, snd p) \<in> set kvs" by simp
    with d have "map_of kvs (fst p) = Some (snd p)" by (rule map_of_is_SomeI)
    then show "(fst p, index_map z (map_of kvs) (fst p)) = p" by (simp add: index_map_def)
  qed
  then show ?thesis by (simp add: map_idI o_def)
qed

lemma index_map_rename:
  "kv m a = Some e \<Longrightarrow> b \<notin> set s \<Longrightarrow>
   map (\<lambda>key. (key, index_map z ((kv m)(a := None, b \<mapsto> e)) key)) (map (\<lambda>x. if x = a then b else x) s)
   = map (\<lambda>(key, value). (if key = a then b else key, value)) (map (\<lambda>key. (key, index_map z (kv m) key)) s)"
  by (induction s) (auto simp: index_map_def)

lemma pairs_remove:
  "map (\<lambda>key. (key, index_map z ((kv m)(k := None)) key)) (filter (\<lambda>key. key \<noteq> k) s)
   = filter (\<lambda>(key, value). key \<noteq> k) (map (\<lambda>key. (key, index_map z (kv m) key)) s)"
  by (induction s) (auto simp: index_map_def)

lemma stops_after_Cons:
  "stops_after yield (x # xs) st i =
     (if fst (yield x st) then 1 < i \<and> stops_after yield xs (snd (yield x st)) (i - 1) else i = 1)"
proof (cases i)
  case 0
  then show ?thesis by (simp add: stops_after_def)
next
  case (Suc j)
  show ?thesis
  proof (cases j)
    case 0
    with Suc show ?thesis by (simp add: stops_after_def)
  next
    case (Suc l)
    with \<open>i = Suc j\<close> show ?thesis by (auto simp: stops_after_def)
  qed
qed

lemma range_loop_counting:
  "stops_after yield xs st i \<Longrightarrow>
   range_loop xs (counting yield) (n, st) = (n + i, feed yield (take i xs) st)"
proof (induction xs arbitrary: st i n)
  case Nil
  then show ?case by (simp add: stops_after_def)
next
  case (Cons x xs)
  obtain c st' where y: "yield x st = (c, st')" by (cases "yield x st")
  show ?case
  proof (cases c)
    case True
    with Cons.prems y have i: "1 < i" and s: "stops_after yield xs st' (i - 1)"
      by (simp_all add: stops_after_Cons)
    from i obtain j where j: "i = Suc j" by (cases i) auto
    from Cons.IH[OF s, of "Suc n"] y True j i show ?thesis
      by (simp add: counting_def)
  next
    case False
    with Cons.prems y have "i = 1" by (simp add: stops_after_Cons)
    with y False show ?thesis by (simp add: counting_def)
  qed
qed

lemma range_loop_prefix:
  "stops_after yield xs st i \<Longrightarrow> range_loop xs yield st = feed yield (take i xs) st"
proof (induction xs arbitrary: st i)
  case Nil
  then show ?case by (simp add: stops_after_def)
next
  case (Cons x xs)
  obtain c st' where y: "yield x st = (c, st')" by (cases "yield x st")
  show ?case
  proof (cases c)
    case True
    with Cons.prems y have i: "1 < i" and s: "stops_after yield xs st' (i - 1)"
      by (simp_all add: stops_after_Cons)
    from i obtain j where j: "i = Suc j" by (cases i) auto
    from Cons.IH[OF s] y True j i show ?thesis by simp
  next
    case False
    with Cons.prems y have "i = 1" by (simp add: stops_after_Cons)
    with y False show ?thesis by simp
  qed
qed

subsection \<open>The heap\<close>

lemma contents_put_same: "contents (put h m c) m = c"
  by (simp add: contents_def put_def)

lemma contents_put_other:
  "kv_ref a \<noteq> kv_ref b \<Longrightarrow> ll_ref a \<noteq> ll_ref b \<Longrightarrow> contents (put h a c) b = contents h b"
  by (simp add: contents_def put_def)

lemma tables_put_other: "kv_ref a \<noteq> kv_ref b \<Longrightarrow> tables (put h a c) (kv_ref b) = tables h (kv_ref b)"
  by (simp add: put_def)

lemma put_put: "put (put h m c) m c' = put h m c'"
  by (simp add: put_def)

lemma put_contents: "put h m (contents h m) = h"
  by (simp add: put_def contents_def)

lemma heap_run_run:
  "heap_run cs m h = (case run cs (contents h m) of Inl p \<Rightarrow> Inl p | Inr c \<Rightarrow> Inr (put h m c))"
proof (induction cs arbitrary: h)
  case Nil
  show ?case by (simp add: put_contents)
next
  case (Cons c cs)
  show ?case
  proof (cases "apply_op c (contents h m)")
    case (Inl p)
    then show ?thesis by (simp add: heap_apply_def)
  next
    case (Inr c')
    then show ?thesis
      by (simp add: heap_apply_def Cons.IH contents_put_same put_put split: sum.splits)
  qed
qed

lemma heap_run_frame:
  assumes "heap_run cs a h = Inr h'" and "kv_ref a \<noteq> kv_ref b" and "ll_ref a \<noteq> ll_ref b"
  shows "contents h' b = contents h b"
  using assms by (auto simp: heap_run_run contents_put_other split: sum.splits)

lemma Copy_loop:
  assumes "kv_ref m2 \<noteq> kv_ref m"
  shows "foldl (\<lambda>g key. snd (heap_Set g m2 key (index_map z (tables g (kv_ref m)) key))) g ks
    = put g m2 (foldl (\<lambda>c (k, v). snd (Set c k v)) (contents g m2)
        (map (\<lambda>key. (key, index_map z (tables g (kv_ref m)) key)) ks))"
proof (induction ks arbitrary: g)
  case Nil
  show ?case by (simp add: put_contents)
next
  case (Cons key ks)
  let ?v = "index_map z (tables g (kv_ref m)) key"
  let ?g1 = "put g m2 (snd (Set (contents g m2) key ?v))"
  have s: "snd (heap_Set g m2 key ?v) = ?g1"
    by (simp add: heap_Set_def split: prod.splits)
  have t: "tables ?g1 (kv_ref m) = tables g (kv_ref m)"
    using assms by (simp add: tables_put_other)
  show ?case
    by (simp add: s Cons.IH t contents_put_same put_put)
qed

lemma heap_New_fresh:
  assumes "0 \<le> n"
  shows "\<exists>m2 h1. heap_NewOrderedMapWithCapacity h n = Inr (m2, h1)
     \<and> contents h1 m2 = \<lparr>kv = Map.empty, ll = []\<rparr>
     \<and> (allocated h m \<longrightarrow> kv_ref m2 \<noteq> kv_ref m \<and> ll_ref m2 \<noteq> ll_ref m
            \<and> contents h1 m = contents h m)"
  using assms by (auto simp: heap_NewOrderedMapWithCapacity_def NewOrderedMapWithCapacity_def alloc_def
      contents_def allocated_def)

subsection \<open>Slices and the multimap\<close>

lemma go_append_elems:
  assumes "valid_slice A s" and "go_append z g A s v = (s', A')"
  shows "elems A' s' = elems A s @ [v]" and "valid_slice A' s'"
proof -
  from assms(1) have l: "s_len s \<le> s_cap s" and b: "s_off s + s_cap s \<le> length (arrays A (s_array s))"
    by (simp_all add: valid_slice_def)
  have le: "length (elems A s) = s_len s" using l b by (simp add: elems_def)
  show "elems A' s' = elems A s @ [v]"
  proof (cases "s_len s < s_cap s")
    case True
    with assms(2) have s': "s' = s\<lparr>s_len := s_len s + 1\<rparr>"
      and A': "arrays A' (s_array s) = (arrays A (s_array s))[s_off s + s_len s := v]"
      by (auto simp: go_append_def)
    from True b have i: "s_off s + s_len s < length (arrays A (s_array s))" by simp
    show ?thesis using i
      by (simp add: elems_def s' A' take_Suc_conv_app_nth drop_update_swap take_update_cancel)
  next
    case False
    with assms(2) show ?thesis using le
      by (auto simp: go_append_def elems_def Let_def)
  qed
  show "valid_slice A' s'"
  proof (cases "s_len s < s_cap s")
    case True
    with assms(2) l b show ?thesis by (auto simp: go_append_def valid_slice_def)
  next
    case False
    with assms(2) le show ?thesis by (auto simp: go_append_def valid_slice_def Let_def)
  qed
qed

lemma slice_literal1_elems:
  "slice_literal1 A v = (s', A') \<Longrightarrow> elems A' s' = [v] \<and> valid_slice A' s'"
  by (auto simp: slice_literal1_def elems_def valid_slice_def)

lemma AppendMultiMap_present:
  assumes "kv m k = Some a"
  shows "AppendMultiMap z g A m k v
    = (\<lparr>kv = (kv m)(k \<mapsto> fst (go_append z g A a v)), ll = ll m\<rparr>, snd (go_append z g A a v))"
  using assms by (simp add: AppendMultiMap_def Get_def index_map_def Set_old split: prod.splits)

lemma AppendMultiMap_absent:
  assumes "kv m k = None"
  shows "AppendMultiMap z g A m k v
    = (\<lparr>kv = (kv m)(k \<mapsto> fst (slice_literal1 A v)), ll = ll m @ [k]\<rparr>, snd (slice_literal1 A v))"
  using assms by (simp add: AppendMultiMap_def Get_def index_map_def Set_new split: prod.splits)

lemma AppendMultiMap_twice:
  "case AppendMultiMap z g no_arrays MakeOrderedMap k v of (m1, A1) \<Rightarrow>
     case AppendMultiMap z g A1 m1 k w of (m2, A2) \<Rightarrow>
       case Get nil_slice m2 k of (s, ok) \<Rightarrow> ok \<and> elems A2 s = [v, w]"
proof -
  let ?m0 = "MakeOrderedMap :: ('a, slice) OrderedMap"
  obtain s1 A1 where l: "slice_literal1 no_arrays v = (s1, A1)" by (cases "slice_literal1 no_arrays v")
  from slice_literal1_elems[OF l] have e1: "elems A1 s1 = [v]" and v1: "valid_slice A1 s1" by simp_all
  let ?m1 = "\<lparr>kv = (kv ?m0)(k \<mapsto> s1), ll = ll ?m0 @ [k]\<rparr>"
  have 1: "AppendMultiMap z g no_arrays ?m0 k v = (?m1, A1)"
    by (simp add: AppendMultiMap_absent MakeOrderedMap_def l)
  obtain s2 A2 where a: "go_append z g A1 s1 w = (s2, A2)" by (cases "go_append z g A1 s1 w")
  from go_append_elems[OF v1 a] e1 have e2: "elems A2 s2 = [v, w]" by simp
  have 2: "AppendMultiMap z g A1 ?m1 k w = (\<lparr>kv = (kv ?m1)(k \<mapsto> s2), ll = ll ?m1\<rparr>, A2)"
    by (simp add: AppendMultiMap_present a)
  show ?thesis by (simp only: 1 2 prod.case) (simp add: Get_def index_map_def e2)
qed

text \<open>
  Two keys whose slices have the same backing array: after three appends under
  \<^verbatim>\<open>"a"\<close> the array has room for four, \<^verbatim>\<open>Set("b", Get("a"))\<close> stores the same slice
  under \<^verbatim>\<open>"b"\<close>, and an append under each key writes the fourth place. The later write
  is what both keys read.
\<close>

lemma shared_backing_array:
  "(case AppendMultiMap 0 doubling no_arrays MakeOrderedMap ''a'' (1::int) of (m1, A1) \<Rightarrow>
    case AppendMultiMap 0 doubling A1 m1 ''a'' 2 of (m2, A2) \<Rightarrow>
    case AppendMultiMap 0 doubling A2 m2 ''a'' 3 of (m3, A3) \<Rightarrow>
    case Set m3 ''b'' (fst (Get nil_slice m3 ''a'')) of (_, m4) \<Rightarrow>
    case AppendMultiMap 0 doubling A3 m4 ''a'' 4 of (m5, A5) \<Rightarrow>
    case AppendMultiMap 0 doubling A5 m5 ''b'' 5 of (m6, A6) \<Rightarrow>
      elems A5 (fst (Get nil_slice m5 ''a'')) = [1, 2, 3, 4]
      \<and> elems A6 (fst (Get nil_slice m6 ''a'')) = [1, 2, 3, 5]
      \<and> elems A6 (fst (Get nil_slice m6 ''b'')) = [1, 2, 3, 5])"
  by (simp add: AppendMultiMap_def Get_def index_map_def Set_def Let_def go_append_def
      slice_literal1_def elems_def no_arrays_def MakeOrderedMap_def nil_slice_def doubling_def)

subsection \<open>The example map\<close>

lemmas eval_defs = Set_def Delete_def ReplaceKey_def slices_Index_def
  slices_IndexFunc_def slices_Delete_def assign_index_def MakeOrderedMap_def Let_def
  Has_def Get_def index_map_def Len_def consistent_def abc_def

lemma consistent_abc: "consistent abc"
  by (auto simp: consistent_def abc_def)

lemma ll_abc: "ll abc = [''a'', ''b'', ''c'']"
  by (simp add: abc_def)

lemma front_abc: "Collect2 (AllFromFront 0 abc) = [(''a'', 1), (''b'', 2), (''c'', 3)]"
  by (simp add: Collect2_AllFromFront abc_def index_map_def)

lemma back_abc: "Collect2 (AllFromBack 0 abc) = [(''c'', 3), (''b'', 2), (''a'', 1)]"
  by (simp add: Collect2_back_rev front_abc)

lemma values_abc: "slices_Collect (Values 0 abc) = [1, 2, 3]"
  by (simp add: Collect_Values abc_def index_map_def)

lemma two_Suc: "(2::nat) = Suc (Suc 0)"
  by simp

section \<open>The claims\<close>

text \<open>
  Claim C1. Every sequence of \<^verbatim>\<open>Set\<close>, \<^verbatim>\<open>Delete\<close> and \<^verbatim>\<open>ReplaceKey\<close> calls on an empty
  map runs without a panic, and in the map it makes the keys of the ordering sequence are
  the keys of the store, each once: the keys that \<^verbatim>\<open>Keys\<close> yields are distinct and are
  the keys for which \<^verbatim>\<open>Has\<close> is true, and the length of the sequence is the size of the
  store and the value of \<^verbatim>\<open>Len\<close>.
\<close>

theorem reachable_bijection:
  "\<exists>m. run cs MakeOrderedMap = Inr m
      \<and> distinct (slices_Collect (Keys m))
      \<and> set (slices_Collect (Keys m)) = {key. Has m key}
      \<and> distinct (ll m) \<and> set (ll m) = dom (kv m)
      \<and> length (ll m) = card (dom (kv m))
      \<and> Len m = int (card (dom (kv m)))
      \<and> Len m = int (length (slices_Collect (Keys m)))"
proof -
  have "consistent (MakeOrderedMap :: ('a, 'b) OrderedMap)"
    by (simp add: consistent_def MakeOrderedMap_def)
  from run_consistent[OF this, of cs] obtain m where
    m: "run cs MakeOrderedMap = Inr m" "consistent m" by blast
  from m(2) have d: "distinct (ll m)" and s: "set (ll m) = dom (kv m)"
    by (simp_all add: consistent_def)
  from d have "card (set (ll m)) = length (ll m)" by (rule distinct_card)
  with s have c: "length (ll m) = card (dom (kv m))" by simp
  have h: "{key. Has m key} = dom (kv m)" by (auto simp: Has_def)
  show ?thesis using m(1) d s c h by (simp add: Collect_Keys Len_def)
qed

theorem reachable_bijection_witness:
  "\<exists>m. run [OpSet (1::nat) (10::nat), OpSet 2 20, OpReplaceKey 1 3, OpDelete 2, OpSet 1 5, OpSet 3 7]
         MakeOrderedMap = Inr m
     \<and> ll m = [3, 1] \<and> Len m = 2 \<and> card (dom (kv m)) = 2 \<and> set (ll m) = dom (kv m)"
proof -
  let ?cs = "[OpSet (1::nat) (10::nat), OpSet 2 20, OpReplaceKey 1 3, OpDelete 2, OpSet 1 5, OpSet 3 7]"
  from reachable_bijection[of ?cs] obtain m where
    m: "run ?cs MakeOrderedMap = Inr m" and s: "set (ll m) = dom (kv m)"
    and c: "Len m = int (card (dom (kv m)))" by blast
  from m have l: "ll m = [3, 1]" by (auto simp: eval_defs)
  then have "Len m = 2" by (simp add: Len_def)
  with m s c l show ?thesis by simp
qed

text \<open>
  Claim C2. On a key that the map does not hold, \<^verbatim>\<open>Set\<close> stores the value, appends the
  key to the ordering sequence and returns true. On a key that it holds, \<^verbatim>\<open>Set\<close>
  overwrites the value, leaves the ordering sequence as it is and returns false, also when
  the value is the one already stored. Afterwards \<^verbatim>\<open>Get\<close> returns the value, and for a
  key that was present the front traversal yields the keys in the same positions.
\<close>

theorem Set_spec:
  "(\<not> Has m k \<longrightarrow> Set m k v = (True, \<lparr>kv = (kv m)(k \<mapsto> v), ll = ll m @ [k]\<rparr>))
   \<and> (Has m k \<longrightarrow> Set m k v = (False, \<lparr>kv = (kv m)(k \<mapsto> v), ll = ll m\<rparr>))
   \<and> (kv m k = Some v \<longrightarrow> fst (Set m k v) = False)
   \<and> Get z (snd (Set m k v)) k = (v, True)
   \<and> (Has m k \<longrightarrow> slices_Collect (Keys (snd (Set m k v))) = slices_Collect (Keys m)
        \<and> map fst (Collect2 (AllFromFront z (snd (Set m k v)))) = map fst (Collect2 (AllFromFront z m)))"
  by (cases "kv m k")
    (simp_all add: Has_def Set_new Set_old Get_def index_map_def Collect_Keys Collect2_AllFromFront o_def)

theorem Set_spec_witness:
  "\<not> Has abc ''d'' \<and> fst (Set abc ''d'' 4) = True
     \<and> ll (snd (Set abc ''d'' 4)) = [''a'', ''b'', ''c'', ''d'']
   \<and> Has abc ''a'' \<and> fst (Set abc ''a'' 7) = False
     \<and> ll (snd (Set abc ''a'' 7)) = [''a'', ''b'', ''c'']
     \<and> Get 0 (snd (Set abc ''a'' 7)) ''a'' = (7, True)
     \<and> slices_Collect (Keys (snd (Set abc ''a'' 7))) = [''a'', ''b'', ''c'']
   \<and> kv abc ''a'' = Some 1 \<and> fst (Set abc ''a'' 1) = False"
proof -
  have h: "\<not> Has abc ''d''" "Has abc ''a''" "kv abc ''a'' = Some 1"
    by (simp_all add: Has_def abc_def)
  from Set_spec[of abc "''d''" 4 0] h(1)
  have 1: "Set abc ''d'' 4 = (True, \<lparr>kv = (kv abc)(''d'' \<mapsto> 4), ll = ll abc @ [''d'']\<rparr>)"
    by blast
  from Set_spec[of abc "''a''" 7 0] h(2)
  have 2: "Set abc ''a'' 7 = (False, \<lparr>kv = (kv abc)(''a'' \<mapsto> 7), ll = ll abc\<rparr>)"
    and 3: "Get 0 (snd (Set abc ''a'' 7)) ''a'' = (7, True)"
    and 4: "slices_Collect (Keys (snd (Set abc ''a'' 7))) = slices_Collect (Keys abc)"
    by blast+
  from Set_spec[of abc "''a''" 1 0] h(3) have 5: "fst (Set abc ''a'' 1) = False"
    by blast
  have "fst (Set abc ''d'' 4) = True" "ll (snd (Set abc ''d'' 4)) = [''a'', ''b'', ''c'', ''d'']"
    "fst (Set abc ''a'' 7) = False" "ll (snd (Set abc ''a'' 7)) = [''a'', ''b'', ''c'']"
    by (simp_all add: 1 2 ll_abc)
  with h 3 4 5 show ?thesis by (simp add: Collect_Keys ll_abc)
qed

text \<open>
  Claim C3. When the old key is absent or the new key is present, \<^verbatim>\<open>ReplaceKey\<close> returns
  false and the map is what it was: the same store and the same ordering sequence.
\<close>

theorem ReplaceKey_rejects:
  "\<not> Has m oldKey \<or> Has m newKey \<Longrightarrow> ReplaceKey m oldKey newKey = Inr (False, m)"
  by (rule ReplaceKey_no_change) (auto simp: Has_def)

theorem ReplaceKey_rejects_witness:
  "\<not> Has abc ''z'' \<and> ReplaceKey abc ''z'' ''x'' = Inr (False, abc)
   \<and> Has abc ''c'' \<and> ReplaceKey abc ''a'' ''c'' = Inr (False, abc)"
proof -
  have h: "\<not> Has abc ''z''" "Has abc ''c''" by (simp_all add: Has_def abc_def)
  from ReplaceKey_rejects[of abc "''z''" "''x''"] ReplaceKey_rejects[of abc "''a''" "''c''"] h
  show ?thesis by simp
qed

text \<open>
  Claim C4. On a map (one that the operations can make, see \<open>consistent_reachable\<close>) that
  holds the old key and not the new one, \<^verbatim>\<open>ReplaceKey\<close> returns true; afterwards the old
  key is absent, the new key has the value the old key had, every other key has its value,
  and the ordering sequence is the former one with the new key at the position of the old
  key, so that the front traversal yields the former pairs with that one key renamed.
\<close>

theorem ReplaceKey_renames:
  assumes "consistent m" and "Has m oldKey" and "\<not> Has m newKey"
  shows "\<exists>m'. ReplaceKey m oldKey newKey = Inr (True, m')
      \<and> \<not> Has m' oldKey
      \<and> Has m' newKey
      \<and> Get z m' newKey = Get z m oldKey
      \<and> kv m' = (kv m)(oldKey := None, newKey := kv m oldKey)
      \<and> length (ll m') = length (ll m)
      \<and> ll m' = map (\<lambda>key. if key = oldKey then newKey else key) (ll m)
      \<and> (\<forall>i<length (ll m). ll m' ! i = (if ll m ! i = oldKey then newKey else ll m ! i))
      \<and> Collect2 (AllFromFront z m')
          = map (\<lambda>(key, value). (if key = oldKey then newKey else key, value))
              (Collect2 (AllFromFront z m))"
proof -
  from assms obtain e where e: "kv m oldKey = Some e" and n: "kv m newKey = None"
    by (auto simp: Has_def)
  from assms(1) e n have a: "oldKey \<in> set (ll m)" and d: "distinct (ll m)"
    and b: "newKey \<notin> set (ll m)" and ne: "oldKey \<noteq> newKey"
    by (auto simp: consistent_def)
  let ?m' = "\<lparr>kv = (kv m)(oldKey := None, newKey \<mapsto> e),
      ll = map (\<lambda>key. if key = oldKey then newKey else key) (ll m)\<rparr>"
  have r: "ReplaceKey m oldKey newKey = Inr (True, ?m')"
    using e n a d by (simp add: ReplaceKey_success upd_first)
  have 1: "\<not> Has ?m' oldKey" "Has ?m' newKey" using ne by (simp_all add: Has_def)
  have 2: "Get z ?m' newKey = Get z m oldKey" using e by (simp add: Get_def index_map_def)
  have 3: "kv ?m' = (kv m)(oldKey := None, newKey := kv m oldKey)" using e by simp
  have 4: "Collect2 (AllFromFront z ?m')
          = map (\<lambda>(key, value). (if key = oldKey then newKey else key, value))
              (Collect2 (AllFromFront z m))"
    using index_map_rename[OF e b, of z] by (simp only: Collect2_AllFromFront OrderedMap.simps)
  have 5: "\<forall>i<length (ll m). ll ?m' ! i = (if ll m ! i = oldKey then newKey else ll m ! i)"
    by simp
  from r 1 2 3 4 5 show ?thesis by simp
qed

theorem ReplaceKey_renames_witness:
  "consistent abc \<and> Has abc ''b'' \<and> \<not> Has abc ''x''
   \<and> (\<exists>m'. ReplaceKey abc ''b'' ''x'' = Inr (True, m') \<and> ll m' = [''a'', ''x'', ''c'']
         \<and> Get 0 m' ''x'' = (2, True) \<and> \<not> Has m' ''b''
         \<and> Collect2 (AllFromFront 0 m') = [(''a'', 1), (''x'', 2), (''c'', 3)])"
proof -
  have h: "Has abc ''b''" "\<not> Has abc ''x''" by (simp_all add: Has_def abc_def)
  from ReplaceKey_renames[OF consistent_abc h, of 0] obtain m' where
    "ReplaceKey abc ''b'' ''x'' = Inr (True, m')" "\<not> Has m' ''b''"
    "Get 0 m' ''x'' = Get 0 abc ''b''"
    "ll m' = map (\<lambda>key. if key = ''b'' then ''x'' else key) (ll abc)"
    "Collect2 (AllFromFront 0 m')
          = map (\<lambda>(key, value). (if key = ''b'' then ''x'' else key, value))
              (Collect2 (AllFromFront 0 abc))" by blast
  then show ?thesis using consistent_abc h
    by (simp add: Collect2_AllFromFront Get_def index_map_def abc_def)
qed

text \<open>
  Claim C5. On a map that the operations can make, \<^verbatim>\<open>Delete\<close> of a present key returns
  true; afterwards \<^verbatim>\<open>Has\<close> is false for the key, neither the front nor the back traversal
  yields it, and both yield the other pairs in their former order. \<^verbatim>\<open>Delete\<close> of an absent
  key returns false and the map is what it was.
\<close>

theorem Delete_spec:
  assumes "consistent m"
  shows "(Has m k \<longrightarrow> (\<exists>m'. Delete m k = Inr (True, m')
            \<and> \<not> Has m' k
            \<and> k \<notin> fst ` set (Collect2 (AllFromFront z m'))
            \<and> k \<notin> fst ` set (Collect2 (AllFromBack z m'))
            \<and> Collect2 (AllFromFront z m')
                = filter (\<lambda>(key, value). key \<noteq> k) (Collect2 (AllFromFront z m))
            \<and> Collect2 (AllFromBack z m')
                = filter (\<lambda>(key, value). key \<noteq> k) (Collect2 (AllFromBack z m))
            \<and> kv m' = (kv m)(k := None)
            \<and> ll m' = filter (\<lambda>key. key \<noteq> k) (ll m)))
       \<and> (\<not> Has m k \<longrightarrow> Delete m k = Inr (False, m))"
proof (cases "Has m k")
  case False
  then show ?thesis by (simp add: Has_def Delete_absent)
next
  case True
  with assms have p: "kv m k \<noteq> None" and a: "k \<in> set (ll m)" and d: "distinct (ll m)"
    by (auto simp: consistent_def Has_def)
  let ?m' = "\<lparr>kv = (kv m)(k := None), ll = remove1 k (ll m)\<rparr>"
  have r: "Delete m k = Inr (True, ?m')" using p a by (rule Delete_present)
  have l: "remove1 k (ll m) = filter (\<lambda>key. key \<noteq> k) (ll m)"
    using d by (simp add: distinct_remove1_removeAll removeAll_filter_not_eq) metis
  have f: "Collect2 (AllFromFront z ?m')
      = filter (\<lambda>(key, value). key \<noteq> k) (Collect2 (AllFromFront z m))"
    using pairs_remove[of z m k "ll m"] by (simp only: Collect2_AllFromFront OrderedMap.simps l)
  have b: "Collect2 (AllFromBack z ?m')
      = filter (\<lambda>(key, value). key \<noteq> k) (Collect2 (AllFromBack z m))"
    by (simp only: Collect2_back_rev f rev_filter)
  have nf: "k \<notin> fst ` set (Collect2 (AllFromFront z ?m'))" by (auto simp: f)
  have nb: "k \<notin> fst ` set (Collect2 (AllFromBack z ?m'))" by (auto simp: b)
  have "\<not> Has ?m' k" by (simp add: Has_def)
  with True r l f b nf nb show ?thesis by simp
qed

theorem Delete_spec_witness:
  "consistent abc \<and> Has abc ''b''
   \<and> (\<exists>m'. Delete abc ''b'' = Inr (True, m') \<and> \<not> Has m' ''b''
         \<and> Collect2 (AllFromFront 0 m') = [(''a'', 1), (''c'', 3)]
         \<and> Collect2 (AllFromBack 0 m') = [(''c'', 3), (''a'', 1)])
   \<and> \<not> Has abc ''z'' \<and> Delete abc ''z'' = Inr (False, abc)"
proof -
  have h: "Has abc ''b''" "\<not> Has abc ''z''" by (simp_all add: Has_def abc_def)
  from Delete_spec[OF consistent_abc, of "''b''" 0] h(1) obtain m' where
    "Delete abc ''b'' = Inr (True, m')" "\<not> Has m' ''b''"
    "Collect2 (AllFromFront 0 m')
                = filter (\<lambda>(key, value). key \<noteq> ''b'') (Collect2 (AllFromFront 0 abc))"
    "Collect2 (AllFromBack 0 m')
                = filter (\<lambda>(key, value). key \<noteq> ''b'') (Collect2 (AllFromBack 0 abc))" by blast
  moreover from Delete_spec[OF consistent_abc, of "''z''" 0] h(2)
  have "Delete abc ''z'' = Inr (False, abc)" by blast
  ultimately show ?thesis using consistent_abc h
    by (simp add: Collect2_AllFromFront Collect2_AllFromBack index_map_def abc_def)
qed

text \<open>
  Claim C6. After \<^verbatim>\<open>Set\<close> of the pairs of a list with distinct keys on an empty map,
  \<^verbatim>\<open>AllFromFront\<close> and \<^verbatim>\<open>All\<close> yield the pairs in the order of the list and
  \<^verbatim>\<open>AllFromBack\<close> yields them in the reverse order. On every map \<^verbatim>\<open>All\<close> yields what
  \<^verbatim>\<open>AllFromFront\<close> yields, and \<^verbatim>\<open>AllFromBack\<close> yields the reverse of it.
\<close>

theorem traversal_order:
  "distinct (map fst kvs) \<Longrightarrow>
   (\<exists>m. run (map (\<lambda>(k, v). OpSet k v) kvs) MakeOrderedMap = Inr m
      \<and> Collect2 (AllFromFront z m) = kvs
      \<and> Collect2 (All_seq z m) = kvs
      \<and> Collect2 (AllFromBack z m) = rev kvs
      \<and> slices_Collect (Keys m) = map fst kvs)
   \<and> Collect2 (All_seq z m') = Collect2 (AllFromFront z m')
   \<and> Collect2 (AllFromBack z m') = rev (Collect2 (AllFromFront z m'))"
proof -
  assume d: "distinct (map fst kvs)"
  have "fst ` set kvs \<inter> dom (kv (MakeOrderedMap :: ('a, 'b) OrderedMap)) = {}"
    by (simp add: MakeOrderedMap_def)
  from foldl_Set[OF d this] have r: "run (map (\<lambda>(k, v). OpSet k v) kvs) MakeOrderedMap
      = Inr \<lparr>kv = map_of kvs, ll = map fst kvs\<rparr>"
    by (simp add: run_Set MakeOrderedMap_def)
  let ?m = "\<lparr>kv = map_of kvs, ll = map fst kvs\<rparr>"
  have f: "Collect2 (AllFromFront z ?m) = kvs"
    using map_of_pairs[OF d, of z] by (simp only: Collect2_AllFromFront OrderedMap.simps)
  have "Collect2 (AllFromBack z ?m) = rev kvs"
    by (simp only: Collect2_back_rev f)
  with r f Collect2_back_rev[of z m'] show ?thesis
    by (simp add: All_seq_def Collect_Keys)
qed

theorem traversal_order_witness:
  "distinct (map fst [(''k1'', 1::nat), (''k2'', 2), (''k3'', 3)])
   \<and> (\<exists>m. run [OpSet ''k1'' 1, OpSet ''k2'' 2, OpSet ''k3'' 3] MakeOrderedMap = Inr m
        \<and> Collect2 (AllFromFront 0 m) = [(''k1'', 1::nat), (''k2'', 2), (''k3'', 3)]
        \<and> Collect2 (All_seq 0 m) = [(''k1'', 1), (''k2'', 2), (''k3'', 3)]
        \<and> Collect2 (AllFromBack 0 m) = [(''k3'', 3), (''k2'', 2), (''k1'', 1)])
   \<and> Collect2 (AllFromBack 0 abc) = rev (Collect2 (AllFromFront 0 abc))"
  using traversal_order[of "[(''k1'', 1::nat), (''k2'', 2), (''k3'', 3)]" 0 abc]
  by simp

text \<open>
  Claim C7. \<^verbatim>\<open>Copy\<close> of a handle whose map the operations can make returns a handle on a
  new table and a new slice cell that hold the pairs of the source in the same order, and
  leaves the source as it is. The two maps are independent: in any later heap, a sequence
  of operations through one handle does not change what the other handle points to, and
  right after the copy any sequence of operations through one of the handles runs as it
  does on a map of its own while the other map stays what it was. The values are copied as
  they are, so a value that is itself a reference still refers to what it did.
\<close>

theorem Copy_independent:
  assumes "allocated h m" and "consistent (contents h m)"
  shows "\<exists>m2 h'. Copy z h m = Inr (m2, h')
     \<and> kv_ref m2 \<noteq> kv_ref m \<and> ll_ref m2 \<noteq> ll_ref m
     \<and> contents h' m2 = contents h m
     \<and> contents h' m = contents h m
     \<and> Collect2 (AllFromFront z (contents h' m2)) = Collect2 (AllFromFront z (contents h m))
     \<and> (\<forall>g cs g'. heap_run cs m2 g = Inr g' \<longrightarrow> contents g' m = contents g m)
     \<and> (\<forall>g cs g'. heap_run cs m g = Inr g' \<longrightarrow> contents g' m2 = contents g m2)
     \<and> (\<forall>cs. \<exists>g'. heap_run cs m2 h' = Inr g' \<and> contents g' m = contents h m
            \<and> run cs (contents h m) = Inr (contents g' m2))
     \<and> (\<forall>cs. \<exists>g'. heap_run cs m h' = Inr g' \<and> contents g' m2 = contents h m
            \<and> run cs (contents h m) = Inr (contents g' m))"
proof -
  have "0 \<le> Len (contents h m)" by (simp add: Len_def)
  from heap_New_fresh[OF this, of h m] assms(1) obtain m2 h1 where
    new: "heap_NewOrderedMapWithCapacity h (Len (contents h m)) = Inr (m2, h1)"
    and e1: "contents h1 m2 = \<lparr>kv = Map.empty, ll = []\<rparr>"
    and ne: "kv_ref m2 \<noteq> kv_ref m" "ll_ref m2 \<noteq> ll_ref m"
    and m1: "contents h1 m = contents h m" by blast
  define h' where "h' = foldl (\<lambda>g key. snd (heap_Set g m2 key (index_map z (tables g (kv_ref m)) key)))
               h1 (cells h1 (ll_ref m))"
  have c: "Copy z h m = Inr (m2, h')"
    by (simp add: Copy_def new h'_def)
  from m1 have t1: "tables h1 (kv_ref m) = kv (contents h m)"
    and l1: "cells h1 (ll_ref m) = ll (contents h m)"
    by (simp_all add: contents_def)
  have h': "h' = put h1 m2 (contents h m)"
    by (simp only: h'_def Copy_loop[OF ne(1)] t1 l1 e1 Copy_pairs[OF assms(2)])
  have a: "contents h' m2 = contents h m" by (simp only: h' contents_put_same)
  have b: "contents h' m = contents h m"
    by (simp only: h' contents_put_other[OF ne] m1)
  have f1: "\<forall>g cs g'. heap_run cs m2 g = Inr g' \<longrightarrow> contents g' m = contents g m"
    using ne by (blast intro: heap_run_frame)
  have f2: "\<forall>g cs g'. heap_run cs m g = Inr g' \<longrightarrow> contents g' m2 = contents g m2"
    using ne by (metis heap_run_frame)
  have ok: "\<exists>c. run cs (contents h m) = Inr c" for cs
    using run_consistent[OF assms(2), of cs] by blast
  have r1: "\<exists>g'. heap_run cs m2 h' = Inr g' \<and> contents g' m = contents h m
            \<and> run cs (contents h m) = Inr (contents g' m2)" for cs
  proof -
    from ok[of cs] obtain c where c: "run cs (contents h m) = Inr c" by blast
    then have "heap_run cs m2 h' = Inr (put h' m2 c)" by (simp add: heap_run_run a)
    moreover have "contents (put h' m2 c) m = contents h m"
      by (simp only: contents_put_other[OF ne] b)
    moreover have "run cs (contents h m) = Inr (contents (put h' m2 c) m2)"
      by (simp only: contents_put_same c)
    ultimately show ?thesis by blast
  qed
  have r2: "\<exists>g'. heap_run cs m h' = Inr g' \<and> contents g' m2 = contents h m
            \<and> run cs (contents h m) = Inr (contents g' m)" for cs
  proof -
    from ok[of cs] obtain c where c: "run cs (contents h m) = Inr c" by blast
    then have "heap_run cs m h' = Inr (put h' m c)" by (simp add: heap_run_run b)
    moreover have "contents (put h' m c) m2 = contents h m"
      by (simp only: contents_put_other[OF ne(1)[symmetric] ne(2)[symmetric]] a)
    moreover have "run cs (contents h m) = Inr (contents (put h' m c) m)"
      by (simp only: contents_put_same c)
    ultimately show ?thesis by blast
  qed
  have "Collect2 (AllFromFront z (contents h' m2)) = Collect2 (AllFromFront z (contents h m))"
    by (simp only: a)
  with c ne a b f1 f2 r1 r2 show ?thesis by blast
qed

theorem Copy_independent_witness:
  "allocated heap0 handle0 \<and> consistent (contents heap0 handle0)
   \<and> (\<exists>m2 h'. Copy 0 heap0 handle0 = Inr (m2, h')
        \<and> kv_ref m2 = 1 \<and> ll_ref m2 = 1
        \<and> Collect2 (AllFromFront 0 (contents h' m2)) = [(''a'', 1), (''b'', 2), (''c'', 3)]
        \<and> (\<exists>g. heap_run [OpDelete ''a'', OpSet ''d'' 4] m2 h' = Inr g
              \<and> ll (contents g handle0) = [''a'', ''b'', ''c'']
              \<and> ll (contents g m2) = [''b'', ''c'', ''d''])
        \<and> (\<exists>g. heap_run [OpDelete ''a'', OpSet ''d'' 4] handle0 h' = Inr g
              \<and> ll (contents g handle0) = [''b'', ''c'', ''d'']
              \<and> ll (contents g m2) = [''a'', ''b'', ''c'']))"
proof -
  let ?cs = "[OpDelete ''a'', OpSet ''d'' 4]"
  have a: "allocated heap0 handle0" by (simp add: allocated_def heap0_def handle0_def)
  have c0: "contents heap0 handle0 = abc" by (simp add: contents_def heap0_def handle0_def)
  have c: "consistent (contents heap0 handle0)" by (simp only: c0 consistent_abc)
  from Copy_independent[OF a c, of 0] obtain m2 h' where
    cp: "Copy 0 heap0 handle0 = Inr (m2, h')"
    and same: "contents h' m2 = contents heap0 handle0"
    and r1: "\<forall>cs. \<exists>g'. heap_run cs m2 h' = Inr g' \<and> contents g' handle0 = contents heap0 handle0
            \<and> run cs (contents heap0 handle0) = Inr (contents g' m2)"
    and r2: "\<forall>cs. \<exists>g'. heap_run cs handle0 h' = Inr g' \<and> contents g' m2 = contents heap0 handle0
            \<and> run cs (contents heap0 handle0) = Inr (contents g' handle0)"
    by blast
  from cp have ref: "kv_ref m2 = 1" "ll_ref m2 = 1"
    by (auto simp: Copy_def heap_NewOrderedMapWithCapacity_def NewOrderedMapWithCapacity_def
        alloc_def Len_def heap0_def)
  from r1 obtain g1 where g1: "heap_run ?cs m2 h' = Inr g1" "contents g1 handle0 = abc"
    "run ?cs abc = Inr (contents g1 m2)" unfolding c0 by blast
  from r2 obtain g2 where g2: "heap_run ?cs handle0 h' = Inr g2" "contents g2 m2 = abc"
    "run ?cs abc = Inr (contents g2 handle0)" unfolding c0 by blast
  have ev: "\<exists>t. run ?cs abc = Inr \<lparr>kv = t, ll = [''b'', ''c'', ''d'']\<rparr>"
    by (simp add: eval_defs)
  from ev g1(3) have l1: "ll (contents g1 m2) = [''b'', ''c'', ''d'']" by auto
  from ev g2(3) have l2: "ll (contents g2 handle0) = [''b'', ''c'', ''d'']" by auto
  have "Collect2 (AllFromFront 0 (contents h' m2)) = [(''a'', 1), (''b'', 2), (''c'', 3)]"
    by (simp only: same c0 front_abc)
  with a c cp ref g1 g2 l1 l2 show ?thesis by (simp add: ll_abc)
qed

text \<open>
  Claim C8. When the consumer signals stop after the \<open>i\<close>-th element of what a traversal
  yields, the traversal calls the consumer \<open>i\<close> times, and the state of the consumer
  afterwards is its state after the first \<open>i\<close> elements: nothing after the \<open>i\<close>-th
  element reaches it. This holds for \<^verbatim>\<open>AllFromFront\<close>, \<^verbatim>\<open>AllFromBack\<close>, \<^verbatim>\<open>All\<close>,
  \<^verbatim>\<open>Keys\<close> and \<^verbatim>\<open>Values\<close>.
\<close>

theorem early_termination:
  "(stops_after (\<lambda>(k, v). y2 k v) (Collect2 (AllFromFront z m)) st i \<longrightarrow>
      AllFromFront z m (counting2 y2) (0, st)
        = (i, feed (\<lambda>(k, v). y2 k v) (take i (Collect2 (AllFromFront z m))) st)
      \<and> AllFromFront z m y2 st = feed (\<lambda>(k, v). y2 k v) (take i (Collect2 (AllFromFront z m))) st)
 \<and> (stops_after (\<lambda>(k, v). y2 k v) (Collect2 (AllFromBack z m)) st i \<longrightarrow>
      AllFromBack z m (counting2 y2) (0, st)
        = (i, feed (\<lambda>(k, v). y2 k v) (take i (Collect2 (AllFromBack z m))) st)
      \<and> AllFromBack z m y2 st = feed (\<lambda>(k, v). y2 k v) (take i (Collect2 (AllFromBack z m))) st)
 \<and> (stops_after (\<lambda>(k, v). y2 k v) (Collect2 (All_seq z m)) st i \<longrightarrow>
      All_seq z m (counting2 y2) (0, st)
        = (i, feed (\<lambda>(k, v). y2 k v) (take i (Collect2 (All_seq z m))) st)
      \<and> All_seq z m y2 st = feed (\<lambda>(k, v). y2 k v) (take i (Collect2 (All_seq z m))) st)
 \<and> (stops_after yk (slices_Collect (Keys m)) st i \<longrightarrow>
      Keys m (counting yk) (0, st) = (i, feed yk (take i (slices_Collect (Keys m))) st)
      \<and> Keys m yk st = feed yk (take i (slices_Collect (Keys m))) st)
 \<and> (stops_after yv (slices_Collect (Values z m)) st i \<longrightarrow>
      Values z m (counting yv) (0, st) = (i, feed yv (take i (slices_Collect (Values z m))) st)
      \<and> Values z m yv st = feed yv (take i (slices_Collect (Values z m))) st)"
proof -
  let ?pair = "\<lambda>key. (key, index_map z (kv m) key)"
  let ?c = "\<lambda>(k, v). y2 k v"
  have c2: "counting2 y2 = (\<lambda>key value. counting ?c (key, value))"
    by (simp add: counting2_def fun_eq_iff)
  have front: "AllFromFront z m (counting2 y2) = range_loop (map ?pair (ll m)) (counting ?c)"
    and front': "AllFromFront z m y2 = range_loop (map ?pair (ll m)) ?c"
    by (simp_all add: AllFromFront_def range_loop_map c2 fun_eq_iff)
  have bk: "AllFromBack z m (counting2 y2) = range_loop (map ?pair (rev (ll m))) (counting ?c)"
    and bk': "AllFromBack z m y2 = range_loop (map ?pair (rev (ll m))) ?c"
    by (simp_all add: AllFromBack_def slices_Backward_def range_loop_map c2 fun_eq_iff)
  have vals: "Values z m (counting yv) = range_loop (map (index_map z (kv m)) (ll m)) (counting yv)"
    and vals': "Values z m yv = range_loop (map (index_map z (kv m)) (ll m)) yv"
    by (simp_all add: Values_def range_loop_map fun_eq_iff)
  have keys: "Keys m (counting yk) = range_loop (ll m) (counting yk)"
    and keys': "Keys m yk = range_loop (ll m) yk"
    by (simp_all add: Keys_def fun_eq_iff)
  have 1: "stops_after ?c (Collect2 (AllFromFront z m)) st i \<longrightarrow>
      AllFromFront z m (counting2 y2) (0, st)
        = (i, feed ?c (take i (Collect2 (AllFromFront z m))) st)
      \<and> AllFromFront z m y2 st = feed ?c (take i (Collect2 (AllFromFront z m))) st"
    using range_loop_counting[of ?c "map ?pair (ll m)" st i 0]
      range_loop_prefix[of ?c "map ?pair (ll m)" st i]
    by (simp add: Collect2_AllFromFront front front')
  have 2: "stops_after ?c (Collect2 (AllFromBack z m)) st i \<longrightarrow>
      AllFromBack z m (counting2 y2) (0, st)
        = (i, feed ?c (take i (Collect2 (AllFromBack z m))) st)
      \<and> AllFromBack z m y2 st = feed ?c (take i (Collect2 (AllFromBack z m))) st"
    using range_loop_counting[of ?c "map ?pair (rev (ll m))" st i 0]
      range_loop_prefix[of ?c "map ?pair (rev (ll m))" st i]
    by (simp add: Collect2_AllFromBack bk bk')
  have 4: "stops_after yk (slices_Collect (Keys m)) st i \<longrightarrow>
      Keys m (counting yk) (0, st) = (i, feed yk (take i (slices_Collect (Keys m))) st)
      \<and> Keys m yk st = feed yk (take i (slices_Collect (Keys m))) st"
    using range_loop_counting[of yk "ll m" st i 0] range_loop_prefix[of yk "ll m" st i]
    by (simp add: Collect_Keys keys keys')
  have 5: "stops_after yv (slices_Collect (Values z m)) st i \<longrightarrow>
      Values z m (counting yv) (0, st) = (i, feed yv (take i (slices_Collect (Values z m))) st)
      \<and> Values z m yv st = feed yv (take i (slices_Collect (Values z m))) st"
    using range_loop_counting[of yv "map (index_map z (kv m)) (ll m)" st i 0]
      range_loop_prefix[of yv "map (index_map z (kv m)) (ll m)" st i]
    by (simp add: Collect_Values vals vals')
  from 1 have 3: "stops_after ?c (Collect2 (All_seq z m)) st i \<longrightarrow>
      All_seq z m (counting2 y2) (0, st)
        = (i, feed ?c (take i (Collect2 (All_seq z m))) st)
      \<and> All_seq z m y2 st = feed ?c (take i (Collect2 (All_seq z m))) st"
    by (simp add: All_seq_def)
  from 1 2 3 4 5 show ?thesis by blast
qed

theorem early_termination_witness:
  "stops_after (\<lambda>(k, v). stop_at_second (k, v)) (Collect2 (AllFromFront 0 abc)) [] 2
   \<and> AllFromFront 0 abc (counting2 (\<lambda>k v. stop_at_second (k, v))) (0, []) = (2, [(''a'', 1), (''b'', 2)])
   \<and> All_seq 0 abc (counting2 (\<lambda>k v. stop_at_second (k, v))) (0, []) = (2, [(''a'', 1), (''b'', 2)])
   \<and> stops_after (\<lambda>(k, v). stop_at_second (k, v)) (Collect2 (AllFromBack 0 abc)) [] 2
   \<and> AllFromBack 0 abc (counting2 (\<lambda>k v. stop_at_second (k, v))) (0, []) = (2, [(''c'', 3), (''b'', 2)])
   \<and> stops_after stop_at_second (slices_Collect (Keys abc)) [] 2
   \<and> Keys abc (counting stop_at_second) (0, []) = (2, [''a'', ''b''])
   \<and> stops_after stop_at_second (slices_Collect (Values 0 abc)) [] 2
   \<and> Values 0 abc (counting stop_at_second) (0, []) = (2, [1, 2])"
proof -
  let ?y2 = "\<lambda>k v. stop_at_second (k, v)"
  have h: "stops_after (\<lambda>(k, v). ?y2 k v) (Collect2 (AllFromFront 0 abc)) [] 2"
    "stops_after (\<lambda>(k, v). ?y2 k v) (Collect2 (All_seq 0 abc)) [] 2"
    "stops_after (\<lambda>(k, v). ?y2 k v) (Collect2 (AllFromBack 0 abc)) [] 2"
    "stops_after stop_at_second (slices_Collect (Keys abc)) [] 2"
    "stops_after stop_at_second (slices_Collect (Values 0 abc)) [] 2"
    by (simp_all add: stops_after_def All_seq_def front_abc back_abc values_abc Collect_Keys ll_abc
        stop_at_second_def two_Suc)
  note t = early_termination[of ?y2 0 abc "[]" 2]
  note tk = early_termination[of _ _ abc "[]" 2 stop_at_second]
  note tv = early_termination[of _ 0 abc "[]" 2 _ stop_at_second]
  from t h(1) have 1: "AllFromFront 0 abc (counting2 ?y2) (0, [])
      = (2, feed (\<lambda>(k, v). ?y2 k v) (take 2 (Collect2 (AllFromFront 0 abc))) [])" by blast
  from t h(2) have 2: "All_seq 0 abc (counting2 ?y2) (0, [])
      = (2, feed (\<lambda>(k, v). ?y2 k v) (take 2 (Collect2 (All_seq 0 abc))) [])" by blast
  from t h(3) have 3: "AllFromBack 0 abc (counting2 ?y2) (0, [])
      = (2, feed (\<lambda>(k, v). ?y2 k v) (take 2 (Collect2 (AllFromBack 0 abc))) [])" by blast
  from tk h(4) have 4: "Keys abc (counting stop_at_second) (0, [])
      = (2, feed stop_at_second (take 2 (slices_Collect (Keys abc))) [])" by blast
  from tv h(5) have 5: "Values 0 abc (counting stop_at_second) (0, [])
      = (2, feed stop_at_second (take 2 (slices_Collect (Values 0 abc))) [])" by blast
  have 
    "feed (\<lambda>(k, v). ?y2 k v) (take 2 (Collect2 (AllFromFront 0 abc))) [] = [(''a'', 1), (''b'', 2)]"
    "feed (\<lambda>(k, v). ?y2 k v) (take 2 (Collect2 (All_seq 0 abc))) [] = [(''a'', 1), (''b'', 2)]"
    "feed (\<lambda>(k, v). ?y2 k v) (take 2 (Collect2 (AllFromBack 0 abc))) [] = [(''c'', 3), (''b'', 2)]"
    "feed stop_at_second (take 2 (slices_Collect (Keys abc))) [] = [''a'', ''b'']"
    "feed stop_at_second (take 2 (slices_Collect (Values 0 abc))) [] = [1, 2]"
    by (simp_all add: All_seq_def front_abc back_abc values_abc Collect_Keys ll_abc
        stop_at_second_def two_Suc)
  with h 1 2 3 4 5 show ?thesis by (simp only:)
qed

text \<open>
  Claim C9. After \<^verbatim>\<open>AppendMultiMap\<close> the key has a slice whose elements are those of
  the slice it had, followed by the value, or the value alone when the key was absent.
  The key is in the store of the returned map, no other key has joined or left it, and
  the order is as \<^verbatim>\<open>Set\<close> leaves it. Appending 1 and then 2 under \<^verbatim>\<open>"a"\<close> to an empty
  multimap makes \<^verbatim>\<open>Get("a")\<close> return a slice of the elements 1, 2. What the slices of
  the other keys hold is not part of the statement: \<open>shared_backing_array\<close> shows one
  that changes.
\<close>

theorem AppendMultiMap_spec:
  "(\<forall>a. kv m k = Some a \<and> valid_slice A a \<longrightarrow>
      (\<exists>a'. kv (fst (AppendMultiMap z g A m k v)) k = Some a'
          \<and> elems (snd (AppendMultiMap z g A m k v)) a' = elems A a @ [v]
          \<and> valid_slice (snd (AppendMultiMap z g A m k v)) a'))
   \<and> (kv m k = None \<longrightarrow>
      (\<exists>a'. kv (fst (AppendMultiMap z g A m k v)) k = Some a'
          \<and> elems (snd (AppendMultiMap z g A m k v)) a' = [v]
          \<and> valid_slice (snd (AppendMultiMap z g A m k v)) a'))
   \<and> dom (kv (fst (AppendMultiMap z g A m k v))) = insert k (dom (kv m))
   \<and> ll (fst (AppendMultiMap z g A m k v)) = (if Has m k then ll m else ll m @ [k])
   \<and> (case AppendMultiMap 0 g no_arrays MakeOrderedMap ''a'' (1::int) of (m1, A1) \<Rightarrow>
        case AppendMultiMap 0 g A1 m1 ''a'' 2 of (m2, A2) \<Rightarrow>
          case Get nil_slice m2 ''a'' of (s, ok) \<Rightarrow> ok \<and> elems A2 s = [1, 2])"
proof (cases "kv m k")
  case None
  obtain s' A' where l: "slice_literal1 A v = (s', A')" by (cases "slice_literal1 A v")
  from None have "AppendMultiMap z g A m k v = (\<lparr>kv = (kv m)(k \<mapsto> s'), ll = ll m @ [k]\<rparr>, A')"
    by (simp add: AppendMultiMap_absent l)
  with None slice_literal1_elems[OF l] AppendMultiMap_twice[where z = "0::int" and g = g and k = "''a''" and v = 1 and w = 2]
  show ?thesis by (simp add: Has_def)
next
  case (Some a)
  obtain s' A' where l: "go_append z g A a v = (s', A')" by (cases "go_append z g A a v")
  from Some have r: "AppendMultiMap z g A m k v = (\<lparr>kv = (kv m)(k \<mapsto> s'), ll = ll m\<rparr>, A')"
    by (simp add: AppendMultiMap_present l)
  have "valid_slice A a \<longrightarrow> elems A' s' = elems A a @ [v] \<and> valid_slice A' s'"
    using go_append_elems[OF _ l] by blast
  with Some r AppendMultiMap_twice[where z = "0::int" and g = g and k = "''a''" and v = 1 and w = 2]
  show ?thesis by (simp add: Has_def)
qed

theorem AppendMultiMap_spec_witness:
  "kv one_a ''a'' = Some \<lparr>s_array = 0, s_off = 0, s_len = 1, s_cap = 1\<rparr>
   \<and> valid_slice one_a_arrays \<lparr>s_array = 0, s_off = 0, s_len = 1, s_cap = 1\<rparr>
   \<and> elems one_a_arrays \<lparr>s_array = 0, s_off = 0, s_len = 1, s_cap = 1\<rparr> = [1]
   \<and> (\<exists>a'. kv (fst (AppendMultiMap 0 doubling one_a_arrays one_a ''a'' 2)) ''a'' = Some a'
         \<and> elems (snd (AppendMultiMap 0 doubling one_a_arrays one_a ''a'' 2)) a' = [1, 2])
   \<and> kv one_a ''b'' = None
   \<and> (\<exists>a'. kv (fst (AppendMultiMap 0 doubling one_a_arrays one_a ''b'' 7)) ''b'' = Some a'
         \<and> elems (snd (AppendMultiMap 0 doubling one_a_arrays one_a ''b'' 7)) a' = [7])
   \<and> ll (fst (AppendMultiMap 0 doubling one_a_arrays one_a ''b'' 7)) = [''a'', ''b'']"
proof -
  let ?s = "\<lparr>s_array = 0, s_off = 0, s_len = 1, s_cap = 1\<rparr>"
  have h: "kv one_a ''a'' = Some ?s" "valid_slice one_a_arrays ?s" "kv one_a ''b'' = None"
    "\<not> Has one_a ''b''" "ll one_a = [''a'']"
    by (simp_all add: one_a_def one_a_arrays_def valid_slice_def Has_def)
  have e: "elems one_a_arrays ?s = [1]" by (simp add: elems_def one_a_arrays_def)
  from AppendMultiMap_spec[of one_a "''a''" one_a_arrays 0 doubling 2] h(1,2) e
  have 1: "\<exists>a'. kv (fst (AppendMultiMap 0 doubling one_a_arrays one_a ''a'' 2)) ''a'' = Some a'
         \<and> elems (snd (AppendMultiMap 0 doubling one_a_arrays one_a ''a'' 2)) a' = [1, 2]"
    by auto
  from AppendMultiMap_spec[of one_a "''b''" one_a_arrays 0 doubling 7] h(3,4,5)
  have 2: "\<exists>a'. kv (fst (AppendMultiMap 0 doubling one_a_arrays one_a ''b'' 7)) ''b'' = Some a'
         \<and> elems (snd (AppendMultiMap 0 doubling one_a_arrays one_a ''b'' 7)) a' = [7]"
    and 3: "ll (fst (AppendMultiMap 0 doubling one_a_arrays one_a ''b'' 7)) = [''a'', ''b'']"
    by auto
  from h e 1 2 3 show ?thesis by blast
qed

text \<open>
  Claim C10. On a map whose ordering sequence holds every key of the store, the scans of
  \<^verbatim>\<open>Delete\<close> and \<^verbatim>\<open>ReplaceKey\<close> for a present key return an index of the sequence, and
  neither method panics, whatever its arguments.
\<close>

theorem scans_in_bounds:
  assumes "dom (kv m) \<subseteq> set (ll m)"
  shows "(\<exists>r. ReplaceKey m a b = Inr r) \<and> (\<exists>r. Delete m k = Inr r)
    \<and> (Has m k \<longrightarrow> 0 \<le> slices_Index (ll m) k \<and> slices_Index (ll m) k + 1 \<le> int (length (ll m)))
    \<and> (Has m a \<longrightarrow> 0 \<le> slices_IndexFunc (ll m) (\<lambda>key. key = a)
          \<and> slices_IndexFunc (ll m) (\<lambda>key. key = a) < int (length (ll m)))"
proof -
  have i: "0 \<le> slices_Index (ll m) x \<and> slices_Index (ll m) x < int (length (ll m))" if "Has m x" for x
  proof -
    from that assms have "x \<in> set (ll m)" by (auto simp: Has_def)
    then show ?thesis using takeWhile_lt[of x "ll m"] by (simp add: slices_Index_in)
  qed
  have 1: "\<exists>r. ReplaceKey m a b = Inr r"
  proof (cases "kv m a = None \<or> kv m b \<noteq> None")
    case True
    then have "ReplaceKey m a b = Inr (False, m)" by (rule ReplaceKey_no_change)
    then show ?thesis by blast
  next
    case False
    then obtain e where "kv m a = Some e" "kv m b = None" by auto
    moreover with assms have "a \<in> set (ll m)" by auto
    ultimately show ?thesis by (auto simp: ReplaceKey_success)
  qed
  have 2: "\<exists>r. Delete m k = Inr r"
  proof (cases "kv m k")
    case None
    then have "Delete m k = Inr (False, m)" by (rule Delete_absent)
    then show ?thesis by blast
  next
    case (Some e)
    moreover with assms have "k \<in> set (ll m)" by auto
    ultimately show ?thesis by (auto simp: Delete_present)
  qed
  from 1 2 i[of k] i[of a] show ?thesis by (auto simp: slices_IndexFunc_eq)
qed

theorem scans_in_bounds_witness:
  "dom (kv abc) \<subseteq> set (ll abc) \<and> Has abc ''c''
   \<and> (\<exists>r. ReplaceKey abc ''c'' ''x'' = Inr r) \<and> (\<exists>r. Delete abc ''c'' = Inr r)
   \<and> slices_Index (ll abc) ''c'' = 2 \<and> 0 \<le> slices_Index (ll abc) ''c''
   \<and> slices_Index (ll abc) ''c'' + 1 \<le> int (length (ll abc))
   \<and> slices_IndexFunc (ll abc) (\<lambda>key. key = ''c'') < int (length (ll abc))"
proof -
  have d: "dom (kv abc) \<subseteq> set (ll abc)" by (auto simp: abc_def)
  have h: "Has abc ''c''" by (simp add: Has_def abc_def)
  have i: "slices_Index (ll abc) ''c'' = 2" by (simp add: slices_Index_def abc_def)
  from scans_in_bounds[OF d, of "''c''" "''x''" "''c''"] h i d show ?thesis by simp
qed

end
